theory Spec2Isabelle
  imports Complex_Main "HOL-Library.Word" "HOL-Library.Multiset"
begin

unbundle bit_operations_syntax

section \<open>Data model of \<open>greaseweazle/codec/macintosh/mac_gcr.py\<close>\<close>

text \<open>
  A Python \<open>bytes\<close> object is a list of 8-bit words, a \<open>bitarray\<close> (big-endian) a list
  of booleans, a Python \<open>int\<close> an \<open>int\<close>. A Python \<open>float\<close> is a \<open>real\<close>: the one
  float computation of the module, \<open>time_per_rev / clock\<close>, is taken as exact.
  Exceptions are values of \<open>error\<close>.
\<close>

type_synonym byte = "8 word"

datatype error = TypeError | IndexError | ValueError | AssertionError | ZeroDivisionError
  | Fatal string

text \<open>The four functions of the compiled module \<open>optimised\<close> that the codec calls.\<close>

record optimised =
  encode_mac_gcr :: "byte list \<Rightarrow> byte list"
  decode_mac_gcr :: "byte list \<Rightarrow> byte list"
  encode_mac_sector :: "byte list \<Rightarrow> byte list"
  decode_mac_sector :: "byte list \<Rightarrow> byte list \<times> int"

text \<open>Class \<open>MacGCRTrackFormat\<close>: \<open>secs\<close> and \<open>clock\<close> start as \<open>None\<close>.\<close>

record MacGCRTrackFormat =
  secs :: "int option"
  clock :: "real option"
  interleave :: int
  finalised :: bool

text \<open>Class \<open>MacGCR\<close>. The attribute \<open>self.clock\<close> is the field \<open>tclock\<close>.\<close>

record MacGCR =
  cyl :: int
  head :: int
  config :: MacGCRTrackFormat
  nsec :: int
  tclock :: "real option"
  sector :: "byte list option list"
  sec_map :: "int list"

definition seclen :: nat where "seclen = 524"
definition enc_seclen :: nat where "enc_seclen = 703"
definition format_byte :: int where "format_byte = 0x22"

definition self_sync_bytes :: "byte list" where
  "self_sync_bytes = [0xff, 0x3f, 0xcf, 0xf3, 0xfc, 0xff]"
definition sector_sync_bytes :: "byte list" where
  "sector_sync_bytes = [0xd5, 0xaa, 0x96]"
definition data_sync_bytes :: "byte list" where
  "data_sync_bytes = [0xd5, 0xaa, 0xad]"

text \<open>\<open>b'-=[BAD SECTOR]=-' * 32\<close>: 16 ASCII bytes, 32 times.\<close>

definition bad_sector_marker :: "byte list" where
  "bad_sector_marker = [0x2d, 0x3d, 0x5b, 0x42, 0x41, 0x44, 0x20, 0x53,
                        0x45, 0x43, 0x54, 0x4f, 0x52, 0x5d, 0x3d, 0x2d]"
definition bad_sector :: "byte list" where
  "bad_sector = concat (replicate 32 bad_sector_marker)"

text \<open>The class attribute \<open>MacGCR.time_per_rev\<close>.\<close>

definition MacGCR_time_per_rev :: real where "MacGCR_time_per_rev = 0.2"
definition default_revs :: real where "default_revs = 1.1"

section \<open>Python list indexing\<close>

text \<open>\<open>xs[i]\<close>: a negative index counts from the end, an index out of range raises.\<close>

definition py_index :: "'a list \<Rightarrow> int \<Rightarrow> nat option" where
  "py_index xs i =
     (let n = int (length xs); j = (if i < 0 then n + i else i)
      in if 0 \<le> j \<and> j < n then Some (nat j) else None)"

definition py_get :: "'a list \<Rightarrow> int \<Rightarrow> error + 'a" where
  "py_get xs i = (case py_index xs i of None \<Rightarrow> Inl IndexError | Some j \<Rightarrow> Inr (xs ! j))"

definition py_set :: "'a list \<Rightarrow> int \<Rightarrow> 'a \<Rightarrow> error + 'a list" where
  "py_set xs i v = (case py_index xs i of None \<Rightarrow> Inl IndexError | Some j \<Rightarrow> Inr (xs[j := v]))"

section \<open>\<open>MacGCRTrackFormat\<close>\<close>

definition new_format :: MacGCRTrackFormat where
  "new_format = \<lparr>secs = None, clock = None, interleave = 1, finalised = False\<rparr>"

text \<open>\<open>error.check(pred, desc)\<close> raises \<open>Fatal(desc)\<close> when \<open>pred\<close> is false.\<close>

definition finalise :: "MacGCRTrackFormat \<Rightarrow> error + MacGCRTrackFormat" where
  "finalise self =
     (if finalised self then Inr self
      else if secs self = None then Inl (Fatal ''number of sectors not specified'')
      else if clock self = None then Inl (Fatal ''clock period not specified'')
      else Inr (self\<lparr>finalised := True\<rparr>))"

section \<open>\<open>MacGCR.__init__\<close>: the interleave map\<close>

text \<open>
  The inner loop \<open>while sec_map[pos] != -1: pos = (pos + 1) % self.nsec\<close>. It runs
  only with \<open>0 \<le> pos < nsec = len(sec_map)\<close>, where the read cannot raise. It does not
  return when no entry is \<open>-1\<close>: the value is then \<open>None\<close>.
\<close>

partial_function (option) next_free :: "int list \<Rightarrow> int \<Rightarrow> int \<Rightarrow> int option" where
  "next_free m n pos =
     (if m ! nat pos \<noteq> -1 then next_free m n ((pos + 1) mod n) else Some pos)"

text \<open>The body of \<open>for i in range(self.nsec)\<close>, over the remaining values of \<open>i\<close>.\<close>

fun place :: "int \<Rightarrow> int \<Rightarrow> int list \<Rightarrow> int list \<times> int \<Rightarrow> (int list \<times> int) option" where
  "place n il [] (m, pos) = Some (m, pos)"
| "place n il (i # rest) (m, pos) =
     (case next_free m n pos of
        None \<Rightarrow> None
      | Some p \<Rightarrow> place n il rest (m[nat p := i], (p + il) mod n))"

definition mk_sec_map :: "int \<Rightarrow> int \<Rightarrow> int list option" where
  "mk_sec_map n il =
     map_option fst (place n il [0..n - 1] (replicate (nat n) (-1), 0))"

text \<open>
  \<open>MacGCR(cyl, head, config)\<close>. \<open>[None] * self.nsec\<close> raises \<open>TypeError\<close> when
  \<open>config.secs\<close> is \<open>None\<close>. The outer \<open>option\<close> is \<open>None\<close> when the constructor does
  not return.
\<close>

definition MacGCR_init :: "int \<Rightarrow> int \<Rightarrow> MacGCRTrackFormat \<Rightarrow> (error + MacGCR) option" where
  "MacGCR_init c h cfg =
     (case secs cfg of
        None \<Rightarrow> Some (Inl TypeError)
      | Some n \<Rightarrow>
          (case mk_sec_map n (interleave cfg) of
             None \<Rightarrow> None
           | Some m \<Rightarrow> Some (Inr \<lparr>cyl = c, head = h, config = cfg, nsec = n,
                                  tclock = clock cfg,
                                  sector = replicate (nat n) None, sec_map = m\<rparr>)))"

definition mk_track :: "MacGCRTrackFormat \<Rightarrow> int \<Rightarrow> int \<Rightarrow> (error + MacGCR) option" where
  "mk_track self c h = MacGCR_init c h self"

section \<open>Bit arrays\<close>

text \<open>
  \<open>bitarray(endian='big')\<close>: \<open>frombytes\<close> appends the bits of each byte, the most
  significant first; \<open>tobytes\<close> pads the last byte with zero bits; \<open>a[i:j]\<close> with
  \<open>0 \<le> i \<le> j\<close> is clipped to the length; \<open>search\<close> and \<open>itersearch\<close> give the start of
  every occurrence of the pattern, in ascending order.
\<close>

definition byte_bits :: "byte \<Rightarrow> bool list" where
  "byte_bits b = rev (map (bit b) [0..<8])"

definition bits_byte :: "bool list \<Rightarrow> byte" where
  "bits_byte bs = horner_sum of_bool 2 (rev bs)"

definition frombytes :: "byte list \<Rightarrow> bool list" where
  "frombytes bs = concat (map byte_bits bs)"

fun tobytes :: "bool list \<Rightarrow> byte list" where
  "tobytes [] = []"
| "tobytes (b # bs) = bits_byte (take 8 (b # bs @ replicate 7 False)) # tobytes (drop 7 bs)"

definition slice :: "'a list \<Rightarrow> nat \<Rightarrow> nat \<Rightarrow> 'a list" where
  "slice xs i j = take (j - i) (drop i xs)"

fun starts_with :: "bool list \<Rightarrow> bool list \<Rightarrow> bool" where
  "starts_with hay [] = True"
| "starts_with [] (n # ns) = False"
| "starts_with (h # hs) (n # ns) = (if h = n then starts_with hs ns else False)"

fun search_from :: "nat \<Rightarrow> bool list \<Rightarrow> bool list \<Rightarrow> nat list" where
  "search_from i [] needle = (if needle = [] then [i] else [])"
| "search_from i (h # hs) needle =
     (if starts_with (h # hs) needle then i # search_from (i + 1) hs needle
      else search_from (i + 1) hs needle)"

definition search :: "bool list \<Rightarrow> bool list \<Rightarrow> nat list" where
  "search hay needle = search_from 0 hay needle"

text \<open>
  The occurrences that start in one byte, from that byte and the three after it, and the
  search of a byte list built from them.
\<close>

definition win :: "byte list \<Rightarrow> bool list \<Rightarrow> nat list" where
  "win w pat = filter (\<lambda>r. starts_with (drop r (frombytes w)) pat) [0..<8]"

fun search_bytes :: "nat \<Rightarrow> byte list \<Rightarrow> bool list \<Rightarrow> nat list" where
  "search_bytes k [] pat = []"
| "search_bytes k (b # bs) pat =
     map (\<lambda>r. 8 * k + r) (win (b # take 3 bs) pat) @ search_bytes (k + 1) bs pat"

definition sector_sync :: "bool list" where "sector_sync = frombytes sector_sync_bytes"
definition data_sync :: "bool list" where "data_sync = frombytes data_sync_bytes"

section \<open>The sector table\<close>

text \<open>
  A method of \<open>MacGCR\<close> takes \<open>self\<close> and returns its result together with \<open>self\<close> as
  the method leaves it. A result that can be an exception is a sum.
\<close>

definition exists :: "MacGCR \<Rightarrow> int \<Rightarrow> (error + bool) \<times> MacGCR" where
  "exists self sec_id =
     (case py_get (sector self) sec_id of
        Inl e \<Rightarrow> (Inl e, self)
      | Inr s \<Rightarrow> (Inr (s \<noteq> None), self))"

definition add :: "MacGCR \<Rightarrow> int \<Rightarrow> byte list \<Rightarrow> (error + unit) \<times> MacGCR" where
  "add self sec_id data =
     (case exists self sec_id of
        (Inl e, self1) \<Rightarrow> (Inl e, self1)
      | (Inr True, self1) \<Rightarrow> (Inl AssertionError, self1)
      | (Inr False, self1) \<Rightarrow>
          (case py_set (sector self1) sec_id (Some data) of
             Inl e \<Rightarrow> (Inl e, self1)
           | Inr xs \<Rightarrow> (Inr (), self1\<lparr>sector := xs\<rparr>)))"

definition has_sec :: "MacGCR \<Rightarrow> int \<Rightarrow> (error + bool) \<times> MacGCR" where
  "has_sec self sec_id =
     (case py_get (sector self) sec_id of
        Inl e \<Rightarrow> (Inl e, self)
      | Inr s \<Rightarrow> (Inr (s \<noteq> None), self))"

definition nr_missing :: "MacGCR \<Rightarrow> int \<times> MacGCR" where
  "nr_missing self = (int (length (filter (\<lambda>sec. sec = None) (sector self))), self)"

text \<open>\<open>'%d' % n\<close>.\<close>

fun digits :: "nat \<Rightarrow> string" where
  "digits n = (if n < 10 then [char_of (48 + n)]
               else digits (n div 10) @ [char_of (48 + n mod 10)])"

definition str_int :: "int \<Rightarrow> string" where
  "str_int i = (if i < 0 then CHR ''-'' # digits (nat (- i)) else digits (nat i))"

definition summary_string :: "MacGCR \<Rightarrow> string \<times> MacGCR" where
  "summary_string self =
     (case nr_missing self of
        (nbad, self1) \<Rightarrow>
          (''Macintosh GCR ('' @ str_int (nsec self1 - nbad) @ ''/'' @ str_int (nsec self1)
             @ '' sectors)'', self1))"

text \<open>\<open>for sec in self.sector: tdat += sec[12:] if sec is not None else bad_sector\<close>\<close>

fun get_img_loop :: "byte list option list \<Rightarrow> byte list \<Rightarrow> byte list" where
  "get_img_loop [] tdat = tdat"
| "get_img_loop (sec # rest) tdat =
     get_img_loop rest (tdat @ (case sec of Some s \<Rightarrow> drop 12 s | None \<Rightarrow> bad_sector))"

definition get_img_track :: "MacGCR \<Rightarrow> byte list \<times> MacGCR" where
  "get_img_track self = (get_img_loop (sector self) [], self)"

text \<open>\<open>for sec in range(self.nsec): self.sector[sec] = bytes(12) + tdat[sec*512:(sec+1)*512]\<close>\<close>

fun set_img_loop :: "byte list \<Rightarrow> int list \<Rightarrow> MacGCR \<Rightarrow> (error + unit) \<times> MacGCR" where
  "set_img_loop tdat [] self = (Inr (), self)"
| "set_img_loop tdat (sec # rest) self =
     (case py_set (sector self) sec
             (Some (replicate 12 0 @ slice tdat (nat (sec * 512)) (nat ((sec + 1) * 512)))) of
        Inl e \<Rightarrow> (Inl e, self)
      | Inr xs \<Rightarrow> set_img_loop tdat rest (self\<lparr>sector := xs\<rparr>))"

definition set_img_track :: "MacGCR \<Rightarrow> byte list \<Rightarrow> (error + int) \<times> MacGCR" where
  "set_img_track self tdat0 =
     (let totsize = nsec self * 512;
          tdat = (if int (length tdat0) < totsize
                  then tdat0 @ replicate (nat (totsize - int (length tdat0))) 0
                  else tdat0)
      in case set_img_loop tdat [0..nsec self - 1] self of
           (Inl e, self1) \<Rightarrow> (Inl e, self1)
         | (Inr u, self1) \<Rightarrow> (Inr totsize, self1))"

section \<open>\<open>decode_raw\<close>\<close>

text \<open>The line printed for an unexpected sector: \<open>self.cyl, self.head, cyl, side, sec_id, fmt\<close>.\<close>

datatype diag = Unexpected int int int int int int

definition xor_sum :: "byte list \<Rightarrow> int" where
  "xor_sum hdr = fold (\<lambda>x sum. sum XOR uint x) hdr 0"

text \<open>
  The body of the loop for one occurrence \<open>offs\<close> of the sector sync, after the test of
  \<open>nr_missing\<close>. \<open>continue\<close> is the result \<open>Inr ()\<close> with the table as it is. The third
  component is what has been printed.
\<close>

definition decode_match ::
  "optimised \<Rightarrow> bool list \<Rightarrow> nat \<Rightarrow> MacGCR \<times> diag list \<Rightarrow> (error + unit) \<times> MacGCR \<times> diag list" where
  "decode_match opt bts offs0 st =
     (case st of (self, out) \<Rightarrow>
      let offs = offs0 + 3 * 8;
          sec = tobytes (slice bts offs (offs + 5 * 8))
      in if length sec \<noteq> 5 then (Inr (), self, out)
      else
        let hdr = decode_mac_gcr opt sec
        in if xor_sum hdr \<noteq> 0 then (Inr (), self, out)
        else
          (case take 4 hdr of
             [b0, b1, b2, b3] \<Rightarrow>
               let sec_id = uint b1;
                   fmt = uint b3;
                   c = uint b0 OR push_bit 6 (uint b2 AND 1);
                   side = drop_bit 5 (uint b2);
                   out1 = (if c \<noteq> cyl self \<or> side \<noteq> head self \<or> sec_id \<ge> nsec self
                              \<or> fmt \<noteq> 0x22
                           then out @ [Unexpected (cyl self) (head self) c side sec_id fmt]
                           else out);
                   offs1 = offs + 5 * 8
               in (case search (slice bts offs1 (offs1 + 100 * 8)) data_sync of
                     [d] \<Rightarrow>
                       let offs2 = offs1 + d + 4 * 8;
                           enc = tobytes (slice bts offs2 (offs2 + 703 * 8))
                       in if length enc \<noteq> 703 then (Inr (), self, out1)
                       else
                         (case decode_mac_sector opt (decode_mac_gcr opt enc) of
                            (dat, csum) \<Rightarrow>
                              if csum \<noteq> 0 then (Inr (), self, out1)
                              else (case add self sec_id dat of (r, self1) \<Rightarrow> (r, self1, out1)))
                   | _ \<Rightarrow> (Inr (), self, out1))
           | _ \<Rightarrow> (Inl ValueError, self, out)))"

text \<open>\<open>for offs in bits.itersearch(sector_sync)\<close>, with the \<open>break\<close> on a full table.\<close>

fun decode_loop ::
  "optimised \<Rightarrow> bool list \<Rightarrow> nat list \<Rightarrow> MacGCR \<times> diag list \<Rightarrow> (error + unit) \<times> MacGCR \<times> diag list" where
  "decode_loop opt bts [] st = (Inr (), st)"
| "decode_loop opt bts (offs # rest) st =
     (if fst (nr_missing (fst st)) = 0 then (Inr (), st)
      else (case decode_match opt bts offs st of
              (Inl e, st1) \<Rightarrow> (Inl e, st1)
            | (Inr u, st1) \<Rightarrow> decode_loop opt bts rest st1))"

text \<open>
  \<open>decode_raw\<close>, from the bit array \<open>bits\<close> that \<open>RawTrack(...).get_all_data()\<close> (the PLL
  of \<open>greaseweazle.track\<close>) makes of the flux.
\<close>

definition decode_raw ::
  "optimised \<Rightarrow> MacGCR \<times> diag list \<Rightarrow> bool list \<Rightarrow> (error + unit) \<times> MacGCR \<times> diag list" where
  "decode_raw opt st bts = decode_loop opt bts (search bts sector_sync) st"

section \<open>\<open>raw_track\<close>\<close>

text \<open>
  \<open>MasterTrack(bits = t, time_per_rev = 0.2)\<close> of \<open>greaseweazle.track\<close> keeps a
  \<open>bytes\<close> argument as the big-endian bit array of these bytes.
\<close>

record MasterTrack =
  bits :: "bool list"
  time_per_rev :: real
  verify :: MacGCR
  verify_revs :: real

text \<open>\<open>bytes([...])\<close> raises \<open>ValueError\<close> unless every element is in \<open>range(256)\<close>.\<close>

definition bytes_of_ints :: "int list \<Rightarrow> error + byte list" where
  "bytes_of_ints xs =
     (if list_all (\<lambda>x. 0 \<le> x \<and> x < 256) xs then Inr (map word_of_int xs) else Inl ValueError)"

text \<open>\<open>int(x)\<close> of a float truncates towards zero.\<close>

definition py_int :: "real \<Rightarrow> int" where
  "py_int x = (if 0 \<le> x then \<lfloor>x\<rfloor> else \<lceil>x\<rceil>)"

text \<open>What one pass of \<open>for nr, sec_id in enumerate(self.sec_map)\<close> appends to \<open>t\<close>.\<close>

definition encode_sector :: "optimised \<Rightarrow> MacGCR \<Rightarrow> int \<Rightarrow> error + byte list" where
  "encode_sector opt self sec_id =
     (case py_get (sector self) sec_id of
        Inl e \<Rightarrow> Inl e
      | Inr sec \<Rightarrow>
          let data = (case sec of None \<Rightarrow> replicate 12 0 @ bad_sector | Some s \<Rightarrow> s);
              side = push_bit 5 (head self) OR drop_bit 6 (cyl self);
              c = cyl self AND 0x3f
          in (case bytes_of_ints [c, sec_id, side, 0x22] of
                Inl e \<Rightarrow> Inl e
              | Inr hdr \<Rightarrow>
                  (case bytes_of_ints [xor_sum hdr] of
                     Inl e \<Rightarrow> Inl e
                   | Inr sum_byte \<Rightarrow>
                       Inr (concat (replicate 6 self_sync_bytes)
                            @ sector_sync_bytes
                            @ encode_mac_gcr opt (hdr @ sum_byte)
                            @ [0xde, 0xaa, 0xff, 0xff]
                            @ self_sync_bytes
                            @ data_sync_bytes
                            @ encode_mac_gcr opt (map word_of_int [sec_id])
                            @ encode_mac_gcr opt (encode_mac_sector opt data)
                            @ [0xde, 0xaa, 0xff]))))"

fun raw_loop :: "optimised \<Rightarrow> MacGCR \<Rightarrow> int list \<Rightarrow> byte list \<Rightarrow> error + byte list" where
  "raw_loop opt self [] t = Inr t"
| "raw_loop opt self (sec_id # rest) t =
     (case encode_sector opt self sec_id of
        Inl e \<Rightarrow> Inl e
      | Inr bs \<Rightarrow> raw_loop opt self rest (t @ bs))"

definition raw_track :: "optimised \<Rightarrow> MacGCR \<Rightarrow> (error + MasterTrack) \<times> MacGCR" where
  "raw_track opt self =
     (case raw_loop opt self (sec_map self)
             (replicate 64 0x96 @ concat (replicate 20 self_sync_bytes)) of
        Inl e \<Rightarrow> (Inl e, self)
      | Inr t0 \<Rightarrow>
          let t1 = t0 @ replicate 4 0xff
          in (case tclock self of
                None \<Rightarrow> (Inl TypeError, self)
              | Some ck \<Rightarrow>
                  if ck = 0 then (Inl ZeroDivisionError, self)
                  else
                    let tlen = py_int (MacGCR_time_per_rev / ck) AND NOT 31;
                        t2 = t1 @ replicate (nat (tlen div 8 - int (length t1))) 0x96
                    in (Inr \<lparr>bits = frombytes t2, time_per_rev = 0.2, verify = self,
                             verify_revs = default_revs\<rparr>, self)))"

section \<open>\<open>verify_track\<close>\<close>

text \<open>\<open>self.__class__(self.cyl, self.head, self.config)\<close> is a new, empty table.\<close>

definition verify_track :: "MacGCR \<Rightarrow> 'flux \<Rightarrow> ((error + bool) \<times> MacGCR) option" where
  "verify_track self flux =
     (case MacGCR_init (cyl self) (head self) (config self) of
        None \<Rightarrow> None
      | Some (Inl e) \<Rightarrow> Some (Inl e, self)
      | Some (Inr readback_track) \<Rightarrow>
          Some (Inr (fst (nr_missing readback_track) = 0
                     \<and> sector self = sector readback_track), self))"

section \<open>\<open>flux\<close>\<close>

text \<open>
  \<open>return self.raw_track().flux(...)\<close>: \<open>track_flux\<close> stands for the
  method \<open>MasterTrack.flux\<close> of \<open>greaseweazle.track\<close> with its arguments.
\<close>

definition flux :: "optimised \<Rightarrow> (MasterTrack \<Rightarrow> 'f) \<Rightarrow> MacGCR \<Rightarrow> (error + 'f) \<times> MacGCR" where
  "flux opt track_flux self =
     (case raw_track opt self of
        (Inl e, self1) \<Rightarrow> (Inl e, self1)
      | (Inr t, self1) \<Rightarrow> (Inr (track_flux t), self1))"

section \<open>Example inputs\<close>

text \<open>
  A codec to run the examples with: \<open>encode_mac_gcr\<close> and \<open>decode_mac_gcr\<close> are the
  identity, \<open>encode_mac_sector\<close> appends 179 zero bytes to the 524 of a sector and
  \<open>decode_mac_sector\<close> gives the first 524 bytes with the XOR of the rest as residual.
  \<open>ex_fresh\<close> is the table that \<open>mk_track\<close> builds for one sector at cylinder 0, head 0;
  \<open>ex_two\<close> is a table of two sectors with sector 0 stored. \<open>ex_record sec_id enc\<close> is
  the record the encoder writes at cylinder 0, head 0 for sector \<open>sec_id\<close> with encoded
  data \<open>enc\<close>, and \<open>ex_track enc\<close> the track of one such record for sector 0, with a
  clock of 25 microseconds (1000 bytes).
\<close>

definition ex_codec :: optimised where
  "ex_codec = \<lparr>encode_mac_gcr = (\<lambda>bs. bs), decode_mac_gcr = (\<lambda>bs. bs),
     encode_mac_sector = (\<lambda>d. d @ replicate 179 0),
     decode_mac_sector = (\<lambda>e. (take 524 e, xor_sum (drop 524 e)))\<rparr>"

definition ex_config :: MacGCRTrackFormat where
  "ex_config = \<lparr>secs = Some 1, clock = Some (1 / 40000), interleave = 1, finalised = True\<rparr>"

definition ex_fresh :: MacGCR where
  "ex_fresh = \<lparr>cyl = 0, head = 0, config = ex_config, nsec = 1, tclock = Some (1 / 40000),
     sector = [None], sec_map = [0]\<rparr>"

definition ex_record :: "byte \<Rightarrow> byte list \<Rightarrow> byte list" where
  "ex_record sec_id enc =
     concat (replicate 6 self_sync_bytes)
     @ sector_sync_bytes @ [0, sec_id, 0, 0x22, sec_id XOR 0x22] @ [0xde, 0xaa, 0xff, 0xff]
     @ self_sync_bytes @ data_sync_bytes @ [sec_id] @ enc @ [0xde, 0xaa, 0xff]"

definition ex_track :: "byte list \<Rightarrow> byte list" where
  "ex_track enc =
     (replicate 64 0x96 @ concat (replicate 20 self_sync_bytes))
     @ ex_record 0 enc @ replicate 4 0xff @ replicate 48 0x96"

definition ex_two :: MacGCR where
  "ex_two = \<lparr>cyl = 0, head = 0, config = ex_config\<lparr>secs := Some 2\<rparr>, nsec = 2,
     tclock = Some (1 / 40000), sector = [Some (replicate 524 1), None], sec_map = [0, 1]\<rparr>"

section \<open>The interleave map is a permutation\<close>

text \<open>
  The inner loop of the constructor returns as soon as some entry of \<open>sec_map\<close> is still
  \<open>-1\<close>: by induction on the number of steps to that entry.
\<close>

lemma next_free_steps:
  assumes n: "0 < n"
  shows "0 \<le> pos \<Longrightarrow> pos < n \<Longrightarrow> m ! nat ((pos + int k) mod n) = -1 \<Longrightarrow>
         \<exists>p. next_free m n pos = Some p \<and> 0 \<le> p \<and> p < n \<and> m ! nat p = -1"
proof (induction k arbitrary: pos)
  case 0
  then have "m ! nat pos = -1" by simp
  then have "next_free m n pos = Some pos" by (subst next_free.simps) simp
  with 0 \<open>m ! nat pos = -1\<close> show ?case by simp
next
  case (Suc k)
  show ?case
  proof (cases "m ! nat pos = -1")
    case True
    then have "next_free m n pos = Some pos" by (subst next_free.simps) simp
    with Suc.prems True show ?thesis by simp
  next
    case False
    let ?q = "(pos + 1) mod n"
    have q: "0 \<le> ?q" "?q < n" using n by simp_all
    have "(?q + int k) mod n = ((pos + 1) + int k) mod n"
      by (rule mod_add_left_eq)
    also have "(pos + 1) + int k = pos + int (Suc k)" by simp
    finally have "m ! nat ((?q + int k) mod n) = -1" using Suc.prems by simp
    from Suc.IH [OF q this] obtain p where
      "next_free m n ?q = Some p" "0 \<le> p" "p < n" "m ! nat p = -1" by blast
    moreover have "next_free m n pos = next_free m n ?q"
      using False by (subst next_free.simps) simp
    ultimately show ?thesis by auto
  qed
qed

lemma next_free_Some:
  assumes n: "0 < n" and len: "length m = nat n" and pos: "0 \<le> pos" "pos < n"
    and free: "-1 \<in> set m"
  shows "\<exists>p. next_free m n pos = Some p \<and> 0 \<le> p \<and> p < n \<and> m ! nat p = -1"
proof -
  from free obtain j where j: "j < length m" "m ! j = -1" by (auto simp: in_set_conv_nth)
  let ?k = "nat ((int j - pos) mod n)"
  have "(pos + int ?k) mod n = int j mod n"
    using n by (simp add: mod_add_right_eq)
  also have "\<dots> = int j" using j len n by simp
  finally have "m ! nat ((pos + int ?k) mod n) = -1" using j by simp
  from next_free_steps [OF n pos this] show ?thesis .
qed

lemma place_inv:
  assumes n: "0 < n"
  shows "length m = nat n \<Longrightarrow> 0 \<le> pos \<Longrightarrow> pos < n \<Longrightarrow>
         mset m = mset ds + replicate_mset (length rest) (-1) \<Longrightarrow>
         \<exists>m' pos'. place n il rest (m, pos) = Some (m', pos') \<and> length m' = nat n \<and>
                   mset m' = mset ds + mset rest"
proof (induction rest arbitrary: m pos ds)
  case Nil
  then show ?case by simp
next
  case (Cons i rest)
  from Cons.prems(4) have "-1 \<in># mset m" by simp
  then have free: "-1 \<in> set m" by simp
  from next_free_Some [OF n Cons.prems(1-3) free] obtain p where
    p: "next_free m n pos = Some p" "0 \<le> p" "p < n" "m ! nat p = -1" by blast
  let ?m = "m[nat p := i]" and ?pos = "(p + il) mod n"
  have pl: "nat p < length m" using p Cons.prems(1) by simp
  have "mset ?m = add_mset i (mset m - {#-1#})"
    using mset_update [OF pl, of i] p(4) by simp
  also have "\<dots> = mset (ds @ [i]) + replicate_mset (length rest) (-1)"
    using Cons.prems(4) by simp
  finally have ms: "mset ?m = mset (ds @ [i]) + replicate_mset (length rest) (-1)" .
  have "length ?m = nat n" using Cons.prems(1) by simp
  moreover have "0 \<le> ?pos" "?pos < n" using n by simp_all
  ultimately obtain m' pos' where
    "place n il rest (?m, ?pos) = Some (m', pos')" "length m' = nat n"
    "mset m' = mset (ds @ [i]) + mset rest"
    using Cons.IH [OF _ _ _ ms] by blast
  then show ?case using p(1) by simp
qed

lemma mk_sec_map_perm:
  assumes n: "0 < n"
  shows "\<exists>m. mk_sec_map n il = Some m \<and> length m = nat n \<and> mset m = mset [0..n - 1]"
proof -
  have len: "length [0..n - 1] = nat n" using n by simp
  have "mset (replicate (nat n) (-1::int)) = mset [] + replicate_mset (length [0..n - 1]) (-1)"
    by (simp add: len)
  from place_inv [OF n _ _ n this, of il] show ?thesis
    by (auto simp: mk_sec_map_def)
qed

lemma mk_sec_map_nonpos: "n \<le> 0 \<Longrightarrow> mk_sec_map n il = Some []"
  by (simp add: mk_sec_map_def)

lemma mk_sec_map_total: "\<exists>m. mk_sec_map n il = Some m \<and> length m = nat n \<and> mset m = mset [0..n - 1]"
proof (cases "0 < n")
  case True then show ?thesis by (rule mk_sec_map_perm)
next
  case False then show ?thesis by (simp add: mk_sec_map_nonpos)
qed

lemma perm_upto_unique:
  assumes ms: "mset m = mset [0..n - 1]" and len: "length m = nat n" and i: "0 \<le> i" "i < n"
  shows "\<exists>!p. p < nat n \<and> m ! p = i"
proof -
  have d: "distinct m" using ms by (metis distinct_upto mset_eq_imp_distinct_iff)
  have "set m = set [0..n - 1]" using ms by (rule mset_eq_setD)
  with i have "i \<in> set m" by simp
  then obtain p where p: "p < length m" "m ! p = i" by (auto simp: in_set_conv_nth)
  show ?thesis
  proof (rule ex1I [of _ p])
    show "p < nat n \<and> m ! p = i" using p len by simp
  next
    fix q assume "q < nat n \<and> m ! q = i"
    with p d len show "q = p" by (metis nth_eq_iff_index_eq)
  qed
qed

lemma perm_upto_range:
  assumes ms: "mset m = mset [0..n - 1]" and len: "length m = nat n" and p: "p < nat n"
  shows "0 \<le> m ! p \<and> m ! p < n"
proof -
  have "set m = set [0..n - 1]" using ms by (rule mset_eq_setD)
  moreover have "m ! p \<in> set m" using p len by simp
  ultimately show ?thesis by simp
qed

lemma mk_sec_map_12_2: "mk_sec_map 12 2 = Some [0, 6, 1, 7, 2, 8, 3, 9, 4, 10, 5, 11]"
  by (simp add: mk_sec_map_def upto.simps next_free.simps eval_nat_numeral)

text \<open>
  Claim C5. For a positive sector count \<open>n\<close> and a positive interleave \<open>il\<close> the
  constructor's loop returns a map \<open>m\<close> of length \<open>n\<close> whose entries are logical ids in
  \<open>[0, n)\<close>, every logical id is at exactly one physical position, the map of a table
  depends on \<open>secs\<close> and \<open>interleave\<close> only, and for 12 sectors with interleave 2 it is
  \<open>[0,6,1,7,2,8,3,9,4,10,5,11]\<close>.
\<close>

theorem interleave_map_bijection:
  assumes "0 < n" and "0 < il"
  shows "(\<exists>m. mk_sec_map n il = Some m \<and> length m = nat n
            \<and> (\<forall>p. p < nat n \<longrightarrow> 0 \<le> m ! p \<and> m ! p < n)
            \<and> (\<forall>i. 0 \<le> i \<and> i < n \<longrightarrow> (\<exists>!p. p < nat n \<and> m ! p = i))
            \<and> (\<forall>c h cfg. secs cfg = Some n \<and> interleave cfg = il \<longrightarrow>
                  (\<exists>t. MacGCR_init c h cfg = Some (Inr t) \<and> sec_map t = m)))
         \<and> mk_sec_map 12 2 = Some [0, 6, 1, 7, 2, 8, 3, 9, 4, 10, 5, 11]"
proof -
  from mk_sec_map_perm [OF assms(1), of il] obtain m where
    m: "mk_sec_map n il = Some m" "length m = nat n" "mset m = mset [0..n - 1]" by blast
  have "\<forall>p. p < nat n \<longrightarrow> 0 \<le> m ! p \<and> m ! p < n"
    using perm_upto_range [OF m(3) m(2)] by blast
  moreover have "\<forall>i. 0 \<le> i \<and> i < n \<longrightarrow> (\<exists>!p. p < nat n \<and> m ! p = i)"
    using perm_upto_unique [OF m(3) m(2)] by blast
  moreover have "\<forall>c h cfg. secs cfg = Some n \<and> interleave cfg = il \<longrightarrow>
                  (\<exists>t. MacGCR_init c h cfg = Some (Inr t) \<and> sec_map t = m)"
    using m(1) by (simp add: MacGCR_init_def)
  ultimately show ?thesis using m(1,2) mk_sec_map_12_2 by blast
qed

theorem interleave_map_bijection_witness:
  "(0::int) < 12 \<and> (0::int) < 2 \<and>
   (\<exists>m. mk_sec_map 12 2 = Some m \<and> length m = nat 12
      \<and> (\<forall>p. p < nat 12 \<longrightarrow> 0 \<le> m ! p \<and> m ! p < 12)
      \<and> (\<forall>i. 0 \<le> i \<and> i < 12 \<longrightarrow> (\<exists>!p. p < nat 12 \<and> m ! p = i))
      \<and> (\<forall>c h cfg. secs cfg = Some 12 \<and> interleave cfg = 2 \<longrightarrow>
            (\<exists>t. MacGCR_init c h cfg = Some (Inr t) \<and> sec_map t = m)))"
  (is "_ \<and> _ \<and> ?C")
proof -
  have h: "(0::int) < 12" "(0::int) < 2" by simp_all
  from interleave_map_bijection [OF h] have ?C by (rule conjunct1)
  with h show ?thesis by blast
qed

section \<open>\<open>mk_track\<close> and \<open>finalise\<close>\<close>

text \<open>
  \<open>mk_track\<close> does not read \<open>finalised\<close>: on a configuration with \<open>secs\<close> and \<open>clock\<close>
  assigned and \<open>finalise\<close> never called it returns a table.
\<close>

theorem mk_track_unfinalised_counterexample:
  "\<not> finalised \<lparr>secs = Some 1, clock = Some 1, interleave = 1, finalised = False\<rparr>
   \<and> mk_track \<lparr>secs = Some 1, clock = Some 1, interleave = 1, finalised = False\<rparr> 0 0
       = Some (Inr \<lparr>cyl = 0, head = 0,
                    config = \<lparr>secs = Some 1, clock = Some 1, interleave = 1, finalised = False\<rparr>,
                    nsec = 1, tclock = Some 1, sector = [None], sec_map = [0]\<rparr>)"
  by (simp add: mk_track_def MacGCR_init_def mk_sec_map_def upto.simps next_free.simps)

text \<open>
  Claim C4, as amended. \<open>mk_track\<close> raises exactly when \<open>secs\<close> was never assigned, and
  then a \<open>TypeError\<close> from \<open>[None] * None\<close>; with \<open>secs\<close> assigned it returns a table
  bound to the configuration, finalised or not. The configuration error is raised by
  \<open>finalise\<close>, exactly when it has not succeeded before and \<open>secs\<close> or \<open>clock\<close> is missing.
\<close>

theorem mk_track_needs_only_secs:
  "(mk_track cfg c h = Some (Inl TypeError)) = (secs cfg = None)
   \<and> (\<exists>t. mk_track cfg c h = Some (Inr t) \<and> config t = cfg \<and> cyl t = c \<and> head t = h)
       = (secs cfg \<noteq> None)
   \<and> (\<exists>msg. finalise cfg = Inl (Fatal msg))
       = (\<not> finalised cfg \<and> (secs cfg = None \<or> clock cfg = None))"
proof -
  have a: "(mk_track cfg c h = Some (Inl TypeError)) = (secs cfg = None)"
    using mk_sec_map_total [of "the (secs cfg)" "interleave cfg"]
    by (auto simp: mk_track_def MacGCR_init_def split: option.splits)
  have b: "(\<exists>t. mk_track cfg c h = Some (Inr t) \<and> config t = cfg \<and> cyl t = c \<and> head t = h)
       = (secs cfg \<noteq> None)"
    using mk_sec_map_total [of "the (secs cfg)" "interleave cfg"]
    by (auto simp: mk_track_def MacGCR_init_def split: option.splits)
  have c: "(\<exists>msg. finalise cfg = Inl (Fatal msg))
       = (\<not> finalised cfg \<and> (secs cfg = None \<or> clock cfg = None))"
    by (auto simp: finalise_def)
  from a b c show ?thesis by blast
qed

section \<open>\<open>verify_track\<close>\<close>

text \<open>
  Claim C2. \<open>verify_track\<close> builds the readback table and compares without decoding the
  flux into it: for a table of one sector, populated, it answers \<open>False\<close> whatever the
  flux, also for the readback of the track just written.
\<close>

theorem verify_track_ignores_readback:
  "verify_track \<lparr>cyl = 0, head = 0,
       config = \<lparr>secs = Some 1, clock = Some (1 / 500000), interleave = 1, finalised = True\<rparr>,
       nsec = 1, tclock = Some (1 / 500000), sector = [Some (replicate 524 0)],
       sec_map = [0]\<rparr> flux
   = Some (Inr False, \<lparr>cyl = 0, head = 0,
       config = \<lparr>secs = Some 1, clock = Some (1 / 500000), interleave = 1, finalised = True\<rparr>,
       nsec = 1, tclock = Some (1 / 500000), sector = [Some (replicate 524 0)],
       sec_map = [0]\<rparr>)"
  by (simp add: verify_track_def MacGCR_init_def mk_sec_map_def upto.simps next_free.simps
      nr_missing_def)

section \<open>Read operations\<close>

text \<open>
  \<open>add\<close> is a third method that assigns to a slot: on the fresh table it stores.
\<close>

theorem add_mutates_slot_counterexample:
  "add ex_fresh 0 [] = (Inr (), ex_fresh\<lparr>sector := [Some []]\<rparr>)
   \<and> sector (snd (add ex_fresh 0 [])) \<noteq> sector ex_fresh"
  by (simp add: add_def exists_def py_get_def py_set_def py_index_def ex_fresh_def)

text \<open>
  Claim C10, as amended. \<open>summary_string\<close>, \<open>nr_missing\<close>, \<open>has_sec\<close>, \<open>exists\<close>,
  \<open>get_img_track\<close>, \<open>raw_track\<close>, \<open>flux\<close> and \<open>verify_track\<close> leave the table as it
  is: of the methods of the class, all but \<open>add\<close>, \<open>decode_raw\<close> and \<open>set_img_track\<close>.
  So an export or an encoding after any of them gives what it gave before.
\<close>

theorem read_operations_leave_table:
  "snd (summary_string self) = self \<and> snd (nr_missing self) = self
   \<and> snd (has_sec self sec_id) = self \<and> snd (exists self sec_id) = self
   \<and> snd (get_img_track self) = self
   \<and> snd (raw_track opt self) = self
   \<and> snd (flux opt track_flux self) = self
   \<and> map_option snd (verify_track self readback) = Some self
   \<and> get_img_track (snd (get_img_track self)) = get_img_track self
   \<and> raw_track opt (snd (raw_track opt self)) = raw_track opt self
   \<and> get_img_track (snd (raw_track opt self)) = get_img_track self
   \<and> raw_track opt (snd (get_img_track self)) = raw_track opt self"
proof -
  have 1: "snd (summary_string self) = self" by (simp add: summary_string_def nr_missing_def)
  have 2: "snd (nr_missing self) = self" by (simp add: nr_missing_def)
  have 3: "snd (has_sec self sec_id) = self" by (simp add: has_sec_def split: sum.splits)
  have 4: "snd (get_img_track self) = self" by (simp add: get_img_track_def)
  have 5: "snd (raw_track opt self) = self"
    by (simp add: raw_track_def Let_def split: sum.splits option.splits)
  have 6: "snd (exists self sec_id) = self" by (simp add: exists_def split: sum.splits)
  have 7: "snd (flux opt track_flux self) = self"
    using 5 by (auto simp: flux_def split: prod.splits sum.splits)
  have 8: "map_option snd (verify_track self readback) = Some self"
  proof (cases "secs (config self)")
    case None
    then show ?thesis by (simp add: verify_track_def MacGCR_init_def)
  next
    case (Some n)
    with mk_sec_map_total [of n "interleave (config self)"] show ?thesis
      by (auto simp: verify_track_def MacGCR_init_def)
  qed
  from 1 2 3 4 5 6 7 8 show ?thesis by simp
qed

section \<open>Import and export of a linear image\<close>

lemma py_set_in_range:
  "0 \<le> i \<Longrightarrow> i < int (length xs) \<Longrightarrow> py_set xs i v = Inr (xs[nat i := v])"
  by (simp add: py_set_def py_index_def)


lemma set_img_loop_fold:
  "list_all (\<lambda>i. 0 \<le> i \<and> i < int (length (sector self))) ids \<Longrightarrow>
   set_img_loop tdat ids self =
     (Inr (), self\<lparr>sector :=
        fold (\<lambda>i xs. xs[nat i := Some (replicate 12 0 @ slice tdat (nat (i * 512)) (nat ((i + 1) * 512)))])
             ids (sector self)\<rparr>)"
proof (induction ids arbitrary: self)
  case Nil
  then show ?case by simp
next
  case (Cons i ids)
  let ?v = "Some (replicate 12 0 @ slice tdat (nat (i * 512)) (nat ((i + 1) * 512)))"
  let ?self = "self\<lparr>sector := (sector self)[nat i := ?v]\<rparr>"
  from Cons.prems have i: "0 \<le> i" "i < int (length (sector self))" by simp_all
  from Cons.prems have "list_all (\<lambda>i. 0 \<le> i \<and> i < int (length (sector ?self))) ids" by simp
  from Cons.IH [OF this] show ?case
    by (simp add: py_set_in_range [OF i])
qed

lemma fold_update_length:
  "length (fold (\<lambda>i xs. xs[nat i := g i]) ids xs) = length xs"
  by (induction ids arbitrary: xs) simp_all

lemma fold_update_nth:
  "list_all (\<lambda>i. 0 \<le> i) ids \<Longrightarrow> j < length xs \<Longrightarrow>
   fold (\<lambda>i xs. xs[nat i := g i]) ids xs ! j = (if int j \<in> set ids then g (int j) else xs ! j)"
proof (induction ids arbitrary: xs)
  case Nil
  then show ?case by simp
next
  case (Cons i ids)
  from Cons.prems have i: "0 \<le> i" and rest: "list_all (\<lambda>i. 0 \<le> i) ids" by simp_all
  have j: "j < length (xs[nat i := g i])" using Cons.prems(2) by simp
  have eq: "(nat i = j) = (i = int j)" using i by auto
  show ?case
    using Cons.IH [OF rest j] Cons.prems(2) by (auto simp: nth_list_update eq)
qed

lemma get_img_loop_concat:
  "get_img_loop ss tdat =
     tdat @ concat (map (\<lambda>sec. case sec of Some s \<Rightarrow> drop 12 s | None \<Rightarrow> bad_sector) ss)"
  by (induction ss arbitrary: tdat) simp_all

lemma concat_chunks:
  "concat (map (\<lambda>j. take c (drop (j * c) xs)) [0..<k]) = take (k * c) xs"
proof (induction k)
  case 0
  then show ?case by simp
next
  case (Suc k)
  have "take (k * c + c) xs = take (k * c) xs @ take c (drop (k * c) xs)"
    by (rule take_add)
  with Suc show ?case by (simp add: add.commute)
qed

lemma set_img_loop_all:
  assumes len: "length (sector self) = nat n"
  shows "set_img_loop tdat [0..n - 1] self =
     (Inr (), self\<lparr>sector :=
        map (\<lambda>j. Some (replicate 12 0 @ take 512 (drop (j * 512) tdat))) [0..<nat n]\<rparr>)"
proof -
  let ?g = "\<lambda>i. Some (replicate 12 0 @ slice tdat (nat (i * 512)) (nat ((i + 1) * 512)))"
  have rng: "list_all (\<lambda>i. 0 \<le> i \<and> i < int (length (sector self))) [0..n - 1]"
    using len by (auto simp: list_all_iff)
  have nn: "list_all (\<lambda>i. 0 \<le> i) [0..n - 1]" by (auto simp: list_all_iff)
  have "fold (\<lambda>i xs. xs[nat i := ?g i]) [0..n - 1] (sector self)
        = map (\<lambda>j. Some (replicate 12 0 @ take 512 (drop (j * 512) tdat))) [0..<nat n]"
  proof (rule nth_equalityI)
    show "length (fold (\<lambda>i xs. xs[nat i := ?g i]) [0..n - 1] (sector self))
          = length (map (\<lambda>j. Some (replicate 12 0 @ take 512 (drop (j * 512) tdat))) [0..<nat n])"
      using len by (simp add: fold_update_length)
  next
    fix j assume "j < length (fold (\<lambda>i xs. xs[nat i := ?g i]) [0..n - 1] (sector self))"
    then have j: "j < nat n" using len by (simp add: fold_update_length)
    then have jl: "j < length (sector self)" using len by simp
    have mem: "int j \<in> set [0..n - 1]" using j by auto
    have sl: "slice tdat (nat (int j * 512)) (nat ((int j + 1) * 512)) = take 512 (drop (j * 512) tdat)"
      by (simp add: slice_def nat_mult_distrib nat_add_distrib algebra_simps)
    show "fold (\<lambda>i xs. xs[nat i := ?g i]) [0..n - 1] (sector self) ! j
          = map (\<lambda>j. Some (replicate 12 0 @ take 512 (drop (j * 512) tdat))) [0..<nat n] ! j"
      using fold_update_nth [OF nn jl, of ?g] mem j sl by simp
  qed
  with set_img_loop_fold [OF rng, of tdat] show ?thesis by simp
qed

lemma export_after_import:
  "get_img_loop (map (\<lambda>j. Some (replicate 12 0 @ take 512 (drop (j * 512) tdat))) [0..<k]) []
   = take (k * 512) tdat"
proof -
  have "(\<lambda>sec. case sec of Some s \<Rightarrow> drop 12 s | None \<Rightarrow> bad_sector)
          \<circ> (\<lambda>j. Some (replicate 12 0 @ take 512 (drop (j * 512) tdat)))
        = (\<lambda>j. take 512 (drop (j * 512) tdat))"
    by (rule ext) simp
  then show ?thesis
    by (simp add: get_img_loop_concat concat_chunks)
qed

text \<open>
  Claim C6. On a table with one slot per sector, \<open>set_img_track\<close> returns
  \<open>nsec * 512\<close> and leaves no slot missing; \<open>get_img_track\<close> after it returns the
  bytes imported when they are exactly \<open>nsec * 512\<close>, and the bytes followed by zeros up
  to \<open>nsec * 512\<close> when they are fewer.
\<close>

theorem import_export_roundtrip:
  assumes "length (sector self) = nat (nsec self)"
  shows "\<exists>self1. set_img_track self tdat = (Inr (nsec self * 512), self1)
           \<and> fst (nr_missing self1) = 0
           \<and> (int (length tdat) = nsec self * 512 \<longrightarrow> fst (get_img_track self1) = tdat)
           \<and> (int (length tdat) < nsec self * 512 \<longrightarrow>
                fst (get_img_track self1)
                  = tdat @ replicate (nat (nsec self * 512) - length tdat) 0)"
proof -
  let ?tot = "nsec self * 512"
  let ?tdat = "if int (length tdat) < ?tot
               then tdat @ replicate (nat (?tot - int (length tdat))) 0 else tdat"
  let ?self1 = "self\<lparr>sector :=
        map (\<lambda>j. Some (replicate 12 0 @ take 512 (drop (j * 512) ?tdat))) [0..<nat (nsec self)]\<rparr>"
  have imp: "set_img_track self tdat = (Inr ?tot, ?self1)"
    using set_img_loop_all [OF assms, of ?tdat] by (simp add: set_img_track_def Let_def)
  have miss: "fst (nr_missing ?self1) = 0"
    by (simp add: nr_missing_def filter_map o_def)
  have sec1: "sector ?self1 =
        map (\<lambda>j. Some (replicate 12 0 @ take 512 (drop (j * 512) ?tdat))) [0..<nat (nsec self)]"
    by simp
  have exp: "fst (get_img_track ?self1) = take (nat (nsec self) * 512) ?tdat"
    unfolding get_img_track_def fst_conv sec1 by (rule export_after_import)
  have tot: "nat ?tot = nat (nsec self) * 512" by (simp add: nat_mult_distrib)
  have exact: "int (length tdat) = ?tot \<longrightarrow> fst (get_img_track ?self1) = tdat"
  proof
    assume h: "int (length tdat) = ?tot"
    then have "length tdat = nat (nsec self) * 512" using tot by linarith
    with exp h show "fst (get_img_track ?self1) = tdat" by simp
  qed
  have short: "int (length tdat) < ?tot \<longrightarrow>
                fst (get_img_track ?self1) = tdat @ replicate (nat ?tot - length tdat) 0"
  proof
    assume h: "int (length tdat) < ?tot"
    then have l: "length tdat < nat (nsec self) * 512" using tot by linarith
    have "nat (?tot - int (length tdat)) = nat ?tot - length tdat" by linarith
    with exp h l tot show "fst (get_img_track ?self1) = tdat @ replicate (nat ?tot - length tdat) 0"
      by simp
  qed
  from imp miss exact short show ?thesis by blast
qed


section \<open>The decoder never replaces a stored sector\<close>

lemma add_keeps:
  assumes "add self sec_id dat = (r, self')"
  shows "length (sector self') = length (sector self)
         \<and> (\<forall>j. j < length (sector self) \<and> sector self ! j \<noteq> None
                \<longrightarrow> sector self' ! j = sector self ! j)"
  using assms
  apply (auto simp: add_def exists_def py_get_def py_set_def
           split: option.splits sum.splits if_splits bool.splits)
  apply (metis nth_list_update_neq option.distinct(1))
  done

lemma decode_match_keeps:
  assumes "decode_match opt bts offs (self, out) = (r, self', out')"
  shows "length (sector self') = length (sector self)
         \<and> (\<forall>j. j < length (sector self) \<and> sector self ! j \<noteq> None
                \<longrightarrow> sector self' ! j = sector self ! j)"
proof -
  have "self' = self \<or> (\<exists>i d r1. add self i d = (r1, self'))"
    using assms
    by (auto simp: decode_match_def Let_def split: if_splits list.splits prod.splits)
  then show ?thesis using add_keeps by blast
qed

lemma decode_loop_keeps:
  "decode_loop opt bts offsets (self, out) = (r, self', out') \<Longrightarrow>
   length (sector self') = length (sector self)
   \<and> (\<forall>j. j < length (sector self) \<and> sector self ! j \<noteq> None
          \<longrightarrow> sector self' ! j = sector self ! j)"
proof (induction offsets arbitrary: self out)
  case Nil
  then show ?case by simp
next
  case (Cons offs rest)
  show ?case
  proof (cases "fst (nr_missing self) = 0")
    case True
    with Cons.prems show ?thesis by simp
  next
    case False
    obtain r1 self1 out1 where m: "decode_match opt bts offs (self, out) = (r1, self1, out1)"
      by (metis prod_cases3)
    note k1 = decode_match_keeps [OF m]
    show ?thesis
    proof (cases r1)
      case (Inl e)
      with Cons.prems False m have "self' = self1" by simp
      with k1 show ?thesis by simp
    next
      case (Inr u)
      with Cons.prems False m have "decode_loop opt bts rest (self1, out1) = (r, self', out')"
        by simp
      from Cons.IH [OF this] k1 show ?thesis by auto
    qed
  qed
qed

lemma add_populated:
  "fst (exists self sec_id) = Inr True \<Longrightarrow> add self sec_id dat = (Inl AssertionError, self)"
  by (auto simp: add_def exists_def split: sum.splits)

text \<open>
  Claim C8. Whatever the bits and however \<open>decode_raw\<close> ends, the table has as many
  slots as before and every slot that held a buffer holds the same buffer; a store into
  a populated slot is the failed assertion of \<open>add\<close>, with the table unchanged.
\<close>

theorem decode_raw_keeps_populated_slots:
  assumes "decode_raw opt (self, out) bts = (r, self', out')"
  shows "length (sector self') = length (sector self)
         \<and> (\<forall>j. j < length (sector self) \<and> sector self ! j \<noteq> None
                \<longrightarrow> sector self' ! j = sector self ! j)
         \<and> (\<forall>sec_id dat. fst (exists self' sec_id) = Inr True
                \<longrightarrow> add self' sec_id dat = (Inl AssertionError, self'))"
  using decode_loop_keeps [OF assms [unfolded decode_raw_def]] add_populated by blast

section \<open>Bytes and bits\<close>


lemma length_byte_bits: "length (byte_bits b) = 8"
  by (simp add: byte_bits_def)

lemma length_frombytes: "length (frombytes bs) = 8 * length bs"
  by (induction bs) (simp_all add: frombytes_def length_byte_bits)

lemma bits_byte_byte_bits: "bits_byte (byte_bits b) = b"
proof -
  have "horner_sum of_bool 2 (map (bit b) [0..<8]) = take_bit 8 b"
    by (rule horner_sum_bit_eq_take_bit)
  then show ?thesis by (simp add: bits_byte_def byte_bits_def take_bit_word_eq_self)
qed

lemma frombytes_Cons: "frombytes (b # bs) = byte_bits b @ frombytes bs"
  by (simp add: frombytes_def)

lemma frombytes_append: "frombytes (xs @ ys) = frombytes xs @ frombytes ys"
  by (simp add: frombytes_def)

lemma tobytes_byte: 
  assumes "length w = 8"
  shows "tobytes (w @ rest) = bits_byte w # tobytes rest"
proof -
  from assms obtain a w' where w: "w = a # w'" "length w' = 7" by (cases w) auto
  then show ?thesis by simp
qed

lemma tobytes_frombytes: "tobytes (frombytes bs) = bs"
  by (induction bs) (simp_all add: frombytes_Cons tobytes_byte length_byte_bits bits_byte_byte_bits frombytes_def)

lemma drop_frombytes: "drop (8 * k) (frombytes bs) = frombytes (drop k bs)"
proof (induction bs arbitrary: k)
  case Nil
  then show ?case by (simp add: frombytes_def)
next
  case (Cons b bs)
  show ?case
  proof (cases k)
    case 0
    then show ?thesis by simp
  next
    case (Suc k')
    then show ?thesis using Cons [of k'] by (simp add: frombytes_Cons length_byte_bits)
  qed
qed

lemma take_frombytes: "take (8 * k) (frombytes bs) = frombytes (take k bs)"
proof (induction bs arbitrary: k)
  case Nil
  then show ?case by (simp add: frombytes_def)
next
  case (Cons b bs)
  show ?case
  proof (cases k)
    case 0
    then show ?thesis by (simp add: frombytes_def)
  next
    case (Suc k')
    then show ?thesis using Cons [of k'] by (simp add: frombytes_Cons length_byte_bits)
  qed
qed

lemma slice_frombytes:
  "slice (frombytes bs) (8 * a) (8 * a + 8 * n) = frombytes (take n (drop a bs))"
proof -
  have "8 * a + 8 * n - 8 * a = 8 * n" by simp
  then show ?thesis by (simp only: slice_def drop_frombytes take_frombytes)
qed



section \<open>The length of the encoded track\<close>




section \<open>One sync match of the decoder\<close>

lemma offs_arith:
  "(offs::nat) + 3 * 8 = offs + 24"
  "(offs::nat) + 24 + 5 * 8 = offs + 64"
  "(offs::nat) + 64 + 100 * 8 = offs + 864"
  "(offs::nat) + 64 + d + 4 * 8 = offs + 96 + d"
  "(offs::nat) + 96 + d + 703 * 8 = offs + 96 + d + 5624"
  by simp_all

lemma decode_match_unfold:
  "decode_match opt bts offs (self, out) =
     (if length (tobytes (slice bts (offs + 24) (offs + 64))) \<noteq> 5 then (Inr (), self, out)
      else if xor_sum (decode_mac_gcr opt (tobytes (slice bts (offs + 24) (offs + 64)))) \<noteq> 0
      then (Inr (), self, out)
      else
        (case take 4 (decode_mac_gcr opt (tobytes (slice bts (offs + 24) (offs + 64)))) of
           [b0, b1, b2, b3] \<Rightarrow>
             (case search (slice bts (offs + 64) (offs + 864)) data_sync of
                [d] \<Rightarrow>
                  if length (tobytes (slice bts (offs + 96 + d) (offs + 96 + d + 5624))) \<noteq> 703
                  then (Inr (), self,
                        if uint b0 OR push_bit 6 (uint b2 AND 1) \<noteq> cyl self
                           \<or> drop_bit 5 (uint b2) \<noteq> head self \<or> uint b1 \<ge> nsec self
                           \<or> uint b3 \<noteq> 0x22
                        then out @ [Unexpected (cyl self) (head self)
                                      (uint b0 OR push_bit 6 (uint b2 AND 1))
                                      (drop_bit 5 (uint b2)) (uint b1) (uint b3)]
                        else out)
                  else
                    (case decode_mac_sector opt (decode_mac_gcr opt
                            (tobytes (slice bts (offs + 96 + d) (offs + 96 + d + 5624)))) of
                       (dat, csum) \<Rightarrow>
                         if csum \<noteq> 0
                         then (Inr (), self,
                               if uint b0 OR push_bit 6 (uint b2 AND 1) \<noteq> cyl self
                                  \<or> drop_bit 5 (uint b2) \<noteq> head self \<or> uint b1 \<ge> nsec self
                                  \<or> uint b3 \<noteq> 0x22
                               then out @ [Unexpected (cyl self) (head self)
                                             (uint b0 OR push_bit 6 (uint b2 AND 1))
                                             (drop_bit 5 (uint b2)) (uint b1) (uint b3)]
                               else out)
                         else (case add self (uint b1) dat of
                                 (r, self1) \<Rightarrow>
                                   (r, self1,
                                    if uint b0 OR push_bit 6 (uint b2 AND 1) \<noteq> cyl self
                                       \<or> drop_bit 5 (uint b2) \<noteq> head self
                                       \<or> uint b1 \<ge> nsec self \<or> uint b3 \<noteq> 0x22
                                    then out @ [Unexpected (cyl self) (head self)
                                                  (uint b0 OR push_bit 6 (uint b2 AND 1))
                                                  (drop_bit 5 (uint b2)) (uint b1) (uint b3)]
                                    else out)))
              | _ \<Rightarrow>
                  (Inr (), self,
                   if uint b0 OR push_bit 6 (uint b2 AND 1) \<noteq> cyl self
                      \<or> drop_bit 5 (uint b2) \<noteq> head self \<or> uint b1 \<ge> nsec self
                      \<or> uint b3 \<noteq> 0x22
                   then out @ [Unexpected (cyl self) (head self)
                                 (uint b0 OR push_bit 6 (uint b2 AND 1))
                                 (drop_bit 5 (uint b2)) (uint b1) (uint b3)]
                   else out))
         | _ \<Rightarrow> (Inl ValueError, self, out)))"
  by (simp only: decode_match_def Let_def prod.case offs_arith)


text \<open>
  Claim C7. With a length-preserving \<open>decode_mac_gcr\<close> and a sector still missing: a
  match whose five header bytes have a nonzero XOR, and a match whose data block has a
  nonzero checksum residual, both end with the table unchanged and the loop going on to
  the next occurrence; a match that changes a slot has passed both checks.
\<close>

theorem decode_match_bad_checksum_abandons:
  assumes gl: "\<forall>xs. length (decode_mac_gcr opt xs) = length xs"
    and miss: "fst (nr_missing self) \<noteq> 0"
  shows "(xor_sum (decode_mac_gcr opt (tobytes (slice bts (offs + 24) (offs + 64)))) \<noteq> 0 \<longrightarrow>
            decode_match opt bts offs (self, out) = (Inr (), self, out)
            \<and> decode_loop opt bts (offs # rest) (self, out) = decode_loop opt bts rest (self, out))
       \<and> (\<forall>d. search (slice bts (offs + 64) (offs + 864)) data_sync = [d]
              \<and> snd (decode_mac_sector opt (decode_mac_gcr opt
                       (tobytes (slice bts (offs + 96 + d) (offs + 96 + d + 5624))))) \<noteq> 0 \<longrightarrow>
            (\<exists>out'. decode_match opt bts offs (self, out) = (Inr (), self, out')
               \<and> decode_loop opt bts (offs # rest) (self, out)
                   = decode_loop opt bts rest (self, out')))
       \<and> (\<forall>r self' out'. decode_match opt bts offs (self, out) = (r, self', out')
              \<and> sector self' \<noteq> sector self \<longrightarrow>
            xor_sum (decode_mac_gcr opt (tobytes (slice bts (offs + 24) (offs + 64)))) = 0
            \<and> (\<exists>d. search (slice bts (offs + 64) (offs + 864)) data_sync = [d]
                 \<and> snd (decode_mac_sector opt (decode_mac_gcr opt
                       (tobytes (slice bts (offs + 96 + d) (offs + 96 + d + 5624))))) = 0))"
proof -
  let ?raw = "tobytes (slice bts (offs + 24) (offs + 64))"
  let ?hdr = "decode_mac_gcr opt ?raw"
  have a: "xor_sum ?hdr \<noteq> 0 \<longrightarrow> decode_match opt bts offs (self, out) = (Inr (), self, out)"
    by (simp only: decode_match_unfold if_True if_False split: if_splits) simp
  have b: "\<forall>d. search (slice bts (offs + 64) (offs + 864)) data_sync = [d]
              \<and> snd (decode_mac_sector opt (decode_mac_gcr opt
                       (tobytes (slice bts (offs + 96 + d) (offs + 96 + d + 5624))))) \<noteq> 0 \<longrightarrow>
            (\<exists>out'. decode_match opt bts offs (self, out) = (Inr (), self, out'))"
  proof (intro allI impI)
    fix d
    assume h: "search (slice bts (offs + 64) (offs + 864)) data_sync = [d]
              \<and> snd (decode_mac_sector opt (decode_mac_gcr opt
                       (tobytes (slice bts (offs + 96 + d) (offs + 96 + d + 5624))))) \<noteq> 0"
    show "\<exists>out'. decode_match opt bts offs (self, out) = (Inr (), self, out')"
    proof (cases "length ?raw = 5 \<and> xor_sum ?hdr = 0")
      case False
      then show ?thesis by (auto simp only: decode_match_unfold split: if_splits)
    next
      case True
      then have "length ?hdr = 5" using gl by simp
      then obtain b0 b1 b2 b3 b4 where hd: "?hdr = [b0, b1, b2, b3, b4]"
        by (auto simp: length_Suc_conv eval_nat_numeral)
      then have tk: "take 4 ?hdr = [b0, b1, b2, b3]" by simp
      show ?thesis
        using True h tk
        by (auto simp: decode_match_unfold split: prod.splits)
    qed
  qed
  have c: "\<forall>r self' out'. decode_match opt bts offs (self, out) = (r, self', out')
              \<and> sector self' \<noteq> sector self \<longrightarrow>
            xor_sum ?hdr = 0
            \<and> (\<exists>d. search (slice bts (offs + 64) (offs + 864)) data_sync = [d]
                 \<and> snd (decode_mac_sector opt (decode_mac_gcr opt
                       (tobytes (slice bts (offs + 96 + d) (offs + 96 + d + 5624))))) = 0)"
  proof (intro allI impI)
    fix r self' out'
    assume h: "decode_match opt bts offs (self, out) = (r, self', out')
              \<and> sector self' \<noteq> sector self"
    then show "xor_sum ?hdr = 0
            \<and> (\<exists>d. search (slice bts (offs + 64) (offs + 864)) data_sync = [d]
                 \<and> snd (decode_mac_sector opt (decode_mac_gcr opt
                       (tobytes (slice bts (offs + 96 + d) (offs + 96 + d + 5624))))) = 0)"
      unfolding decode_match_unfold
      by (auto split: if_splits list.splits prod.splits)
  qed
  have l: "\<And>out'. decode_match opt bts offs (self, out) = (Inr (), self, out') \<Longrightarrow>
            decode_loop opt bts (offs # rest) (self, out) = decode_loop opt bts rest (self, out')"
    using miss by simp
  from a b c l show ?thesis by blast
qed

section \<open>Searching a byte stream\<close>

text \<open>
  An occurrence of a pattern of at most 25 bits at bit \<open>8 * k + r\<close> lies within the
  four bytes from byte \<open>k\<close>, so a search of \<open>frombytes bs\<close> goes byte by byte, and
  through a run of equal bytes in one step.
\<close>

lemma starts_with_append:
  "length pat \<le> length xs \<Longrightarrow> starts_with (xs @ ys) pat = starts_with xs pat"
  by (induction xs pat rule: starts_with.induct) simp_all

lemma filter_upt_Suc:
  "filter P [0..<Suc n] = (if P 0 then [0] else []) @ map Suc (filter (\<lambda>r. P (Suc r)) [0..<n])"
proof -
  have "[0..<Suc n] = 0 # map Suc [0..<n]"
    by (simp add: upt_conv_Cons map_Suc_upt del: upt_Suc)
  then show ?thesis by (simp add: filter_map o_def del: upt_Suc)
qed

lemma search_from_append:
  "pat \<noteq> [] \<or> ys \<noteq> [] \<Longrightarrow>
   search_from i (xs @ ys) pat =
     map (\<lambda>r. i + r) (filter (\<lambda>r. starts_with (drop r (xs @ ys)) pat) [0..<length xs])
     @ search_from (i + length xs) ys pat"
proof (induction xs arbitrary: i)
  case Nil
  then show ?case by simp
next
  case (Cons x xs)
  let ?P = "\<lambda>r. starts_with (drop r ((x # xs) @ ys)) pat"
  have f: "filter ?P [0..<length (x # xs)]
           = (if ?P 0 then [0] else [])
             @ map Suc (filter (\<lambda>r. starts_with (drop r (xs @ ys)) pat) [0..<length xs])"
    using filter_upt_Suc [of ?P "length xs"] by (simp del: upt_Suc drop_append)
  have step: "search_from i ((x # xs) @ ys) pat
        = (if ?P 0 then [i] else []) @ search_from (i + 1) (xs @ ys) pat"
    by simp
  show ?case
    unfolding step f Cons.IH [OF Cons.prems, of "i + 1"]
    by (simp add: o_def del: upt_Suc drop_append)
qed

lemma search_from_Nil: "pat \<noteq> [] \<Longrightarrow> search_from i [] pat = []"
  by simp

lemma win_window:
  assumes "length pat \<le> 25" "r < 8"
  shows "starts_with (drop r (frombytes (b # bs))) pat
         = starts_with (drop r (frombytes (b # take 3 bs))) pat"
proof -
  have split: "frombytes (b # bs) = frombytes (b # take 3 bs) @ frombytes (drop 3 bs)"
    by (simp add: frombytes_append [symmetric])
  have lenA: "length (frombytes (b # take 3 bs)) = 8 * (1 + min (length bs) 3)"
    by (simp add: length_frombytes)
  have dr: "drop r (frombytes (b # bs))
            = drop r (frombytes (b # take 3 bs)) @ frombytes (drop 3 bs)"
    using assms(2) lenA by (simp add: split)
  show ?thesis
  proof (cases "3 \<le> length bs")
    case True
    then have "length pat \<le> length (drop r (frombytes (b # take 3 bs)))"
      using assms lenA by simp
    then show ?thesis by (simp only: dr starts_with_append)
  next
    case False
    then have "drop 3 bs = []" by simp
    then show ?thesis by (simp add: dr frombytes_def)
  qed
qed

lemma search_from_frombytes:
  assumes "pat \<noteq> []" "length pat \<le> 25"
  shows "search_from (8 * k) (frombytes bs) pat = search_bytes k bs pat"
proof (induction bs arbitrary: k)
  case Nil
  then show ?case using assms(1) by (simp add: frombytes_def)
next
  case (Cons b bs)
  have "search_from (8 * k) (byte_bits b @ frombytes bs) pat
        = map (\<lambda>r. 8 * k + r)
            (filter (\<lambda>r. starts_with (drop r (byte_bits b @ frombytes bs)) pat)
               [0..<length (byte_bits b)])
          @ search_from (8 * k + length (byte_bits b)) (frombytes bs) pat"
    by (rule search_from_append) (simp add: assms(1))
  then have a: "search_from (8 * k) (frombytes (b # bs)) pat
        = map (\<lambda>r. 8 * k + r)
            (filter (\<lambda>r. starts_with (drop r (frombytes (b # bs))) pat) [0..<8])
          @ search_from (8 * (k + 1)) (frombytes bs) pat"
    by (simp only: frombytes_Cons length_byte_bits distrib_left mult_1_right)
  have w: "filter (\<lambda>r. starts_with (drop r (frombytes (b # bs))) pat) [0..<8]
        = win (b # take 3 bs) pat"
    unfolding win_def
  proof (rule filter_cong [OF refl])
    fix r assume "r \<in> set [0..<8]"
    then have "r < 8" by simp
    from win_window [OF assms(2) this]
    show "starts_with (drop r (frombytes (b # bs))) pat
          = starts_with (drop r (frombytes (b # take 3 bs))) pat" .
  qed
  show ?case
    by (simp only: a w Cons.IH search_bytes.simps)
qed

lemma search_frombytes:
  "pat \<noteq> [] \<Longrightarrow> length pat \<le> 25 \<Longrightarrow> search (frombytes bs) pat = search_bytes 0 bs pat"
  using search_from_frombytes [of pat 0 bs] by (simp add: search_def)

lemma search_bytes_run:
  "win [x, x, x, x] pat = [] \<Longrightarrow>
   search_bytes k (replicate (n + 3) x @ rest) pat = search_bytes (k + n) (x # x # x # rest) pat"
proof (induction n arbitrary: k)
  case 0
  have "replicate (0 + 3) x @ rest = x # x # x # rest" by (simp add: numeral_eq_Suc)
  then show ?case by (simp only: add_0_right)
next
  case (Suc n)
  have r: "replicate (Suc n + 3) x @ rest = x # (replicate (n + 3) x @ rest)"
    by (simp only: add_Suc replicate_Suc append_Cons)
  have t: "take 3 (replicate (n + 3) x @ rest) = [x, x, x]"
    by (simp add: numeral_eq_Suc)
  have "search_bytes k (replicate (Suc n + 3) x @ rest) pat
        = search_bytes (k + 1) (replicate (n + 3) x @ rest) pat"
    by (simp only: r search_bytes.simps t Suc.prems list.map append_Nil)
  also have "\<dots> = search_bytes (k + 1 + n) (x # x # x # rest) pat"
    by (rule Suc.IH [OF Suc.prems])
  finally show ?case by (simp only: add_Suc_right add_Suc One_nat_def add_0_right)
qed

lemma search_bytes_run_num:
  "3 < m \<Longrightarrow> win [x, x, x, x] pat = [] \<Longrightarrow>
   search_bytes k (replicate m x @ rest) pat = search_bytes (k + (m - 3)) (x # x # x # rest) pat"
  using search_bytes_run [of x pat k "m - 3" rest] by simp

lemma search_bytes_run_end:
  "3 < m \<Longrightarrow> win [x, x, x, x] pat = [] \<Longrightarrow>
   search_bytes k (replicate m x) pat = search_bytes (k + (m - 3)) [x, x, x] pat"
  using search_bytes_run_num [of m x pat k "[]"] by simp

section \<open>Encoding, then decoding\<close>












lemma length_concat_replicate: "length (concat (replicate k xs)) = k * length xs"
  by (induction k) simp_all



section \<open>Evaluating the decoder on bytes\<close>

text \<open>
  Byte-aligned slices of \<open>frombytes bs\<close> are slices of \<open>bs\<close>, and the searches for the two
  syncs go byte by byte: with these the decoder runs on the example records.
\<close>


lemma byte_bits_unfold:
  "byte_bits b = [bit b 7, bit b 6, bit b 5, bit b 4, bit b 3, bit b 2, bit b 1, bit b 0]"
  by (simp add: byte_bits_def upt_rec_numeral eval_nat_numeral)

lemma frombytes_Nil: "frombytes [] = []"
  by (simp add: frombytes_def)

lemma sector_sync_bits:
  "sector_sync = [True, True, False, True, False, True, False, True,
                  True, False, True, False, True, False, True, False,
                  True, False, False, True, False, True, True, False]"
  by (simp add: sector_sync_def sector_sync_bytes_def frombytes_Cons frombytes_Nil byte_bits_unfold)

lemma data_sync_bits:
  "data_sync = [True, True, False, True, False, True, False, True,
                True, False, True, False, True, False, True, False,
                True, False, True, False, True, True, False, True]"
  by (simp add: data_sync_def data_sync_bytes_def frombytes_Cons frombytes_Nil byte_bits_unfold)

lemma win_unfold:
  "win w pat =
     (if starts_with (frombytes w) pat then [0] else [])
     @ (if starts_with (drop 1 (frombytes w)) pat then [1] else [])
     @ (if starts_with (drop 2 (frombytes w)) pat then [2] else [])
     @ (if starts_with (drop 3 (frombytes w)) pat then [3] else [])
     @ (if starts_with (drop 4 (frombytes w)) pat then [4] else [])
     @ (if starts_with (drop 5 (frombytes w)) pat then [5] else [])
     @ (if starts_with (drop 6 (frombytes w)) pat then [6] else [])
     @ (if starts_with (drop 7 (frombytes w)) pat then [7] else [])"
proof -
  have u: "[0..<8] = [0, 1, 2, 3, 4, 5, 6, 7]" by (simp add: upt_rec_numeral eval_nat_numeral)
  have f: "\<And>P x xs. filter P (x # xs) = (if P x then [x] else []) @ filter P xs" by simp
  show ?thesis by (simp only: win_def u f filter.simps(1) append_Nil2 drop_0)
qed

lemmas bits_eval = win_unfold frombytes_Cons frombytes_Nil byte_bits_unfold


lemma self_sync_6:
  "concat (replicate 6 self_sync_bytes) =
     self_sync_bytes @ self_sync_bytes @ self_sync_bytes @ self_sync_bytes @ self_sync_bytes
   @ self_sync_bytes"
  by (simp add: numeral_eq_Suc)

lemma slice_frombytes_aligned:
  assumes "i mod 8 = 0" "j mod 8 = 0" "i \<le> j"
  shows "slice (frombytes bs) i j = frombytes (take (j div 8 - i div 8) (drop (i div 8) bs))"
proof -
  define a where "a = i div 8"
  define b where "b = j div 8"
  have "8 * (i div 8) + i mod 8 = i" by (rule mult_div_mod_eq)
  then have i: "i = 8 * a" using assms(1) by (simp add: a_def)
  have "8 * (j div 8) + j mod 8 = j" by (rule mult_div_mod_eq)
  then have jb: "j = 8 * b" using assms(2) by (simp add: b_def)
  have "a \<le> b" unfolding a_def b_def using assms(3) by (rule div_le_mono)
  then have j: "j = 8 * a + 8 * (b - a)" using jb by simp
  have e: "slice (frombytes bs) i j = slice (frombytes bs) (8 * a) (8 * a + 8 * (b - a))"
    by (rule arg_cong2 [OF i j])
  show ?thesis by (simp only: e slice_frombytes a_def b_def)
qed

lemma sync_pat: "sector_sync \<noteq> [] \<and> length sector_sync \<le> 25 \<and> data_sync \<noteq> [] \<and> length data_sync \<le> 25"
  by (simp add: sector_sync_bits data_sync_bits)

lemma search_sector_sync: "search (frombytes bs) sector_sync = search_bytes 0 bs sector_sync"
  using sync_pat by (simp add: search_frombytes)

lemma search_data_sync: "search (frombytes bs) data_sync = search_bytes 0 bs data_sync"
  using sync_pat by (simp add: search_frombytes)

lemma xor_sum_zeros: "xor_sum (replicate n 0 @ xs) = xor_sum xs"
proof -
  have "\<And>s. fold (\<lambda>x s. s XOR uint x) (replicate n (0::byte)) s = s"
    by (induction n) simp_all
  then show ?thesis by (simp add: xor_sum_def)
qed

lemma xor_sum_zeros_only: "xor_sum (replicate n 0) = 0"
  using xor_sum_zeros [of n "[]"] by (simp add: xor_sum_def)

lemmas ex_bytes = self_sync_bytes_def sector_sync_bytes_def data_sync_bytes_def

lemma small_replicate:
  "replicate 1 x = [x]" "replicate 2 x = [x, x]" "replicate 3 x = [x, x, x]"
  by (simp_all add: numeral_eq_Suc)

lemma search_record_zero:
  "search (frombytes (ex_record 0 (replicate 703 0))) sector_sync = [288]"
  apply (simp only: ex_record_def self_sync_6 search_sector_sync)
  apply (simp add: search_bytes_run_num bits_eval sector_sync_bits ex_bytes small_replicate)
  done

lemma search_record_one:
  "search (frombytes (ex_record 1 (replicate 703 0))) sector_sync = [288]"
  apply (simp only: ex_record_def self_sync_6 search_sector_sync)
  apply (simp add: search_bytes_run_num bits_eval sector_sync_bits ex_bytes small_replicate)
  done

lemma search_record_bad_data:
  "search (frombytes (ex_record 0 (replicate 702 0 @ [1]))) sector_sync = [288]"
  apply (simp only: ex_record_def self_sync_6 search_sector_sync)
  apply (simp add: search_bytes_run_num bits_eval sector_sync_bits ex_bytes small_replicate)
  done

lemma ex_record_header:
  "tobytes (slice (frombytes (ex_record i enc)) 312 352) = [0, i, 0, 0x22, i XOR 0x22]"
  apply (simp only: ex_record_def self_sync_6)
  apply (simp add: slice_frombytes_aligned tobytes_frombytes ex_bytes)
  done

lemma ex_record_window:
  "86 \<le> length enc \<Longrightarrow>
   slice (frombytes (ex_record i enc)) 352 1152
   = frombytes ([0xde, 0xaa, 0xff, 0xff] @ self_sync_bytes @ data_sync_bytes @ [i] @ take 86 enc)"
  apply (simp only: ex_record_def self_sync_6)
  apply (simp add: slice_frombytes_aligned ex_bytes)
  done

lemma ex_record_data:
  "length enc = 703 \<Longrightarrow> tobytes (slice (frombytes (ex_record i enc)) 464 6088) = enc"
  apply (simp only: ex_record_def self_sync_6)
  apply (simp add: slice_frombytes_aligned tobytes_frombytes ex_bytes)
  done

lemma search_window_zero:
  "search (frombytes ([0xde, 0xaa, 0xff, 0xff] @ self_sync_bytes @ data_sync_bytes @ [i]
                      @ replicate 86 0)) data_sync = [80]"
  apply (simp only: search_data_sync)
  apply (simp add: search_bytes_run_end search_bytes_run_num bits_eval data_sync_bits ex_bytes
      small_replicate)
  done

lemma ex_record_dsync:
  "86 \<le> length enc \<Longrightarrow> take 86 enc = replicate 86 0 \<Longrightarrow>
   search (slice (frombytes (ex_record i enc)) 352 1152) data_sync = [80]"
  by (simp only: ex_record_window search_window_zero)

lemmas decode_eval = decode_raw_def decode_match_unfold ex_record_header ex_record_dsync
  ex_record_data nr_missing_def xor_sum_zeros_only xor_sum_zeros


lemma xor_sum_5:
  "xor_sum [a, b, c, d, e] = (((uint a XOR uint b) XOR uint c) XOR uint d) XOR uint e"
  by (simp add: xor_sum_def)

lemma xor_sum_1: "xor_sum [a] = uint a"
  by (simp add: xor_sum_def)

lemma ex_codec_sel:
  "decode_mac_gcr ex_codec = (\<lambda>bs. bs)" "encode_mac_gcr ex_codec = (\<lambda>bs. bs)"
  "encode_mac_sector ex_codec = (\<lambda>d. d @ replicate 179 0)"
  "decode_mac_sector ex_codec = (\<lambda>e. (take 524 e, xor_sum (drop 524 e)))"
  by (simp_all add: ex_codec_def)

lemma decode_record_store:
  "decode_raw ex_codec (ex_fresh, []) (frombytes (ex_record 0 (replicate 703 0)))
   = (Inr (), ex_fresh\<lparr>sector := [Some (replicate 524 0)]\<rparr>, [])"
  by (simp add: decode_eval search_record_zero ex_codec_sel xor_sum_5 ex_fresh_def
      add_def exists_def py_get_def py_set_def py_index_def)

lemma decode_record_out_of_range:
  "decode_raw ex_codec (ex_fresh, []) (frombytes (ex_record 1 (replicate 703 0)))
   = (Inl IndexError, ex_fresh, [Unexpected 0 0 0 0 1 0x22])"
  by (simp add: decode_eval search_record_one ex_codec_sel xor_sum_5 ex_fresh_def
      add_def exists_def py_get_def py_set_def py_index_def)

lemma decode_record_bad_data:
  "decode_raw ex_codec (ex_fresh, []) (frombytes (ex_record 0 (replicate 702 0 @ [1])))
   = (Inr (), ex_fresh, [])"
  by (simp add: decode_eval search_record_bad_data ex_codec_sel xor_sum_5 ex_fresh_def
      add_def exists_def py_get_def py_set_def py_index_def xor_sum_1)

lemma decode_record_duplicate:
  "decode_raw ex_codec (ex_two, []) (frombytes (ex_record 0 (replicate 703 0)))
   = (Inl AssertionError, ex_two, [])"
  by (simp add: decode_eval search_record_zero ex_codec_sel xor_sum_5 ex_two_def
      add_def exists_def py_get_def py_set_def py_index_def)

section \<open>Examples\<close>

text \<open>
  Claim C3. A record with a good header and good data whose sector id, 1, is not below
  the sector count, 1: the decoder prints the line of an unexpected sector and then,
  with no \<open>continue\<close> after it, goes on to store; \<open>add\<close> indexes \<open>self.sector[1]\<close> and
  \<open>decode_raw\<close> ends with \<open>IndexError\<close>.
\<close>

theorem out_of_range_sector_id_raises:
  "decode_raw ex_codec (ex_fresh, []) (frombytes (ex_record 1 (replicate 703 0)))
   = (Inl IndexError, ex_fresh, [Unexpected 0 0 0 0 1 0x22])"
  by (rule decode_record_out_of_range)

theorem import_export_roundtrip_witness:
  "length (sector ex_fresh) = nat (nsec ex_fresh)
   \<and> int (length (replicate 512 (65::byte))) = nsec ex_fresh * 512
   \<and> int (length [1, 2, 3 :: byte]) < nsec ex_fresh * 512
   \<and> set_img_track ex_fresh (replicate 512 65)
       = (Inr 512, ex_fresh\<lparr>sector := [Some (replicate 12 0 @ replicate 512 65)]\<rparr>)
   \<and> fst (get_img_track (snd (set_img_track ex_fresh (replicate 512 65)))) = replicate 512 65
   \<and> fst (get_img_track (snd (set_img_track ex_fresh [1, 2, 3]))) = [1, 2, 3] @ replicate 509 0
   \<and> fst (nr_missing (snd (set_img_track ex_fresh [1, 2, 3]))) = 0"
proof -
  have h: "length (sector ex_fresh) = nat (nsec ex_fresh)" by (simp add: ex_fresh_def)
  have n: "nsec ex_fresh = 1" by (simp add: ex_fresh_def)
  from import_export_roundtrip [OF h, of "replicate 512 65"]
  have a: "fst (get_img_track (snd (set_img_track ex_fresh (replicate 512 65)))) = replicate 512 65"
    by (auto simp: n)
  from import_export_roundtrip [OF h, of "[1, 2, 3]"]
  have b: "fst (get_img_track (snd (set_img_track ex_fresh [1, 2, 3]))) = [1, 2, 3] @ replicate 509 0"
    "fst (nr_missing (snd (set_img_track ex_fresh [1, 2, 3]))) = 0"
    by (auto simp: n)
  have c: "set_img_track ex_fresh (replicate 512 65)
       = (Inr 512, ex_fresh\<lparr>sector := [Some (replicate 12 0 @ replicate 512 65)]\<rparr>)"
    by (simp add: set_img_track_def Let_def ex_fresh_def upto.simps py_set_def py_index_def slice_def)
  from h n a b c show ?thesis by simp
qed

theorem decode_raw_keeps_populated_slots_witness:
  "decode_raw ex_codec (ex_two, []) (frombytes (ex_record 0 (replicate 703 0)))
     = (Inl AssertionError, ex_two, [])
   \<and> length (sector ex_two) = 2 \<and> sector ex_two ! 0 = Some (replicate 524 1)
   \<and> fst (exists ex_two 0) = Inr True
   \<and> add ex_two 0 (replicate 524 0) = (Inl AssertionError, ex_two)"
proof -
  note d = decode_record_duplicate
  from decode_raw_keeps_populated_slots [OF d]
  have k: "\<forall>sec_id dat. fst (exists ex_two sec_id) = Inr True
             \<longrightarrow> add ex_two sec_id dat = (Inl AssertionError, ex_two)" by blast
  have e: "fst (exists ex_two 0) = Inr True"
    by (simp add: exists_def py_get_def py_index_def ex_two_def)
  from k e have "add ex_two 0 (replicate 524 0) = (Inl AssertionError, ex_two)" by blast
  with d e show ?thesis by (simp add: ex_two_def)
qed

lemma length_ex_record: "length (ex_record i enc) = 61 + length enc"
  by (simp add: ex_record_def length_concat_replicate ex_bytes)






lemma ex_bad_header:
  "tobytes (slice (frombytes (sector_sync_bytes @ [0, 0, 0, 0x22, 0x23])) 24 64)
   = [0, 0, 0, 0x22, 0x23]"
  by (simp add: slice_frombytes_aligned tobytes_frombytes ex_bytes)

theorem decode_match_bad_checksum_abandons_witness:
  "(\<forall>xs. length (decode_mac_gcr ex_codec xs) = length xs)
   \<and> fst (nr_missing ex_fresh) \<noteq> 0
   \<and> xor_sum (decode_mac_gcr ex_codec
         (tobytes (slice (frombytes (sector_sync_bytes @ [0, 0, 0, 0x22, 0x23])) 24 64))) \<noteq> 0
   \<and> decode_match ex_codec (frombytes (sector_sync_bytes @ [0, 0, 0, 0x22, 0x23])) 0
         (ex_fresh, []) = (Inr (), ex_fresh, [])
   \<and> search (slice (frombytes (ex_record 0 (replicate 702 0 @ [1]))) 352 1152) data_sync = [80]
   \<and> snd (decode_mac_sector ex_codec (decode_mac_gcr ex_codec
         (tobytes (slice (frombytes (ex_record 0 (replicate 702 0 @ [1]))) 464 6088)))) \<noteq> 0
   \<and> (\<exists>out'. decode_match ex_codec (frombytes (ex_record 0 (replicate 702 0 @ [1]))) 288
                  (ex_fresh, []) = (Inr (), ex_fresh, out'))
   \<and> decode_match ex_codec (frombytes (ex_record 0 (replicate 703 0))) 288 (ex_fresh, [])
       = (Inr (), ex_fresh\<lparr>sector := [Some (replicate 524 0)]\<rparr>, [])
   \<and> sector (ex_fresh\<lparr>sector := [Some (replicate 524 0)]\<rparr>) \<noteq> sector ex_fresh
   \<and> xor_sum (decode_mac_gcr ex_codec
         (tobytes (slice (frombytes (ex_record 0 (replicate 703 0))) 312 352))) = 0
   \<and> search (slice (frombytes (ex_record 0 (replicate 703 0))) 352 1152) data_sync = [80]
   \<and> snd (decode_mac_sector ex_codec (decode_mac_gcr ex_codec
         (tobytes (slice (frombytes (ex_record 0 (replicate 703 0))) 464 6088)))) = 0"
proof -
  let ?BA = "frombytes (sector_sync_bytes @ [0, 0, 0, 0x22, 0x23])"
  let ?BB = "frombytes (ex_record 0 (replicate 702 0 @ [1]))"
  let ?BC = "frombytes (ex_record 0 (replicate 703 0))"
  have gl: "\<forall>xs. length (decode_mac_gcr ex_codec xs) = length xs"
    by (simp add: ex_codec_sel)
  have miss: "fst (nr_missing ex_fresh) \<noteq> 0" by (simp add: nr_missing_def ex_fresh_def)
  note T = decode_match_bad_checksum_abandons [OF gl miss]
  have A1: "xor_sum (decode_mac_gcr ex_codec (tobytes (slice ?BA 24 64))) \<noteq> 0"
    by (simp add: ex_bad_header ex_codec_sel xor_sum_5)
  from T [of ?BA 0 "[]" "[]"] A1
  have A2: "decode_match ex_codec ?BA 0 (ex_fresh, []) = (Inr (), ex_fresh, [])" by simp
  have B1: "search (slice ?BB 352 1152) data_sync = [80]"
    by (simp add: ex_record_dsync)
  have B2: "snd (decode_mac_sector ex_codec (decode_mac_gcr ex_codec
               (tobytes (slice ?BB 464 6088)))) \<noteq> 0"
    by (simp add: ex_record_data ex_codec_sel xor_sum_zeros xor_sum_1)
  have B12: "search (slice ?BB (288 + 64) (288 + 864)) data_sync = [80]
      \<and> snd (decode_mac_sector ex_codec (decode_mac_gcr ex_codec
               (tobytes (slice ?BB (288 + 96 + 80) (288 + 96 + 80 + 5624))))) \<noteq> 0"
    using B1 B2 by simp
  from T [of ?BB 288 "[]" "[]", THEN conjunct2, THEN conjunct1, rule_format, OF B12]
  have B3: "\<exists>out'. decode_match ex_codec ?BB 288 (ex_fresh, []) = (Inr (), ex_fresh, out')"
    by blast
  have C1: "decode_match ex_codec ?BC 288 (ex_fresh, [])
       = (Inr (), ex_fresh\<lparr>sector := [Some (replicate 524 0)]\<rparr>, [])"
    by (simp add: decode_eval ex_codec_sel xor_sum_5 ex_fresh_def
      add_def exists_def py_get_def py_set_def py_index_def)
  have C2: "sector (ex_fresh\<lparr>sector := [Some (replicate 524 0)]\<rparr>) \<noteq> sector ex_fresh"
    by (simp add: ex_fresh_def)
  from T [of ?BC 288 "[]" "[]", THEN conjunct2, THEN conjunct2, rule_format,
      OF conjI [OF C1 C2]]
  have C3: "xor_sum (decode_mac_gcr ex_codec (tobytes (slice ?BC 312 352))) = 0
            \<and> (\<exists>d. search (slice ?BC 352 1152) data_sync = [d]
                 \<and> snd (decode_mac_sector ex_codec (decode_mac_gcr ex_codec
                       (tobytes (slice ?BC (288 + 96 + d) (288 + 96 + d + 5624))))) = 0)"
    by simp
  have C4: "search (slice ?BC 352 1152) data_sync = [80]" by (simp add: ex_record_dsync)
  from C3 C4 have C5: "snd (decode_mac_sector ex_codec (decode_mac_gcr ex_codec
                       (tobytes (slice ?BC 464 6088)))) = 0" by simp
  from gl miss A1 A2 B1 B2 B3 C1 C2 C3 C4 C5 show ?thesis by blast
qed

section \<open>The round trip on a whole track\<close>


lemma ex_track_slice:
  assumes "i \<le> j" "j \<le> 8 * (61 + length enc)"
  shows "slice (frombytes (ex_track enc)) (1472 + i) (1472 + j)
         = slice (frombytes (ex_record 0 enc)) i j"
proof -
  define gap :: "byte list" where
    "gap = replicate 64 0x96 @ concat (replicate 20 self_sync_bytes)"
  define tail :: "byte list" where "tail = replicate 4 0xff @ replicate 48 0x96"
  have lg: "length (frombytes gap) = 1472"
    by (simp add: gap_def length_frombytes length_concat_replicate ex_bytes)
  have lr: "length (frombytes (ex_record 0 enc)) = 8 * (61 + length enc)"
    by (simp add: length_frombytes length_ex_record)
  have t: "frombytes (ex_track enc)
           = frombytes gap @ frombytes (ex_record 0 enc) @ frombytes tail"
    by (simp add: ex_track_def gap_def tail_def frombytes_append)
  have "drop (1472 + i) (frombytes (ex_track enc))
        = drop i (frombytes (ex_record 0 enc) @ frombytes tail)"
    unfolding t using lg by simp
  moreover have "1472 + j - (1472 + i) = j - i" by simp
  moreover have "take (j - i) (drop i (frombytes (ex_record 0 enc) @ frombytes tail))
        = take (j - i) (drop i (frombytes (ex_record 0 enc)))"
    using assms lr by simp
  ultimately show ?thesis by (simp only: slice_def)
qed



lemma ex_track_data:
  "tobytes (slice (frombytes (ex_track enc)) 1936 7560) = enc" if "length enc = 703"
proof -
  have "slice (frombytes (ex_track enc)) (1472 + 464) (1472 + 6088)
        = slice (frombytes (ex_record 0 enc)) 464 6088"
    by (rule ex_track_slice) (use that in simp_all)
  then show ?thesis using ex_record_data [OF that, of 0] by simp
qed









end
